theory Spec2Isabelle
  imports Main "HOL-Library.Word"
begin

unbundle bit_operations_syntax

section \<open>JavaScript values and operators used by the server\<close>

text \<open>
  The protocol engine of \<^verbatim>\<open>index.js\<close> computes with JavaScript numbers. All numbers that
  occur are integers, except that reading an array past its end yields \<^verbatim>\<open>undefined\<close> and
  arithmetic on \<^verbatim>\<open>undefined\<close> yields \<^verbatim>\<open>NaN\<close>. A value is therefore a number, \<^verbatim>\<open>NaN\<close> or
  \<^verbatim>\<open>undefined\<close>. Reading a property of \<^verbatim>\<open>undefined\<close> throws a \<^verbatim>\<open>TypeError\<close>, the only
  exception the engine can raise.

  An array is the list of its slots. A slot holds a value or is a hole, \<open>Hole\<close>: a slot below
  the length of the array that was never assigned. A hole is not a value. Indexing reads it as
  \<^verbatim>\<open>undefined\<close>, \<^verbatim>\<open>slice\<close> and \<^verbatim>\<open>map\<close> copy it as a hole, and spreading the array into
  an argument list passes \<^verbatim>\<open>undefined\<close> in its place. No operator below receives a hole; the
  equations for \<open>Hole\<close> only make the operators total.
\<close>

datatype jsval = Num int | NaN | Undefined | Hole

datatype error = TypeError

text \<open>\<^verbatim>\<open>ToInt32\<close>: the operand conversion of every bitwise operator.\<close>

definition to_int32 :: "int \<Rightarrow> int" where
  "to_int32 x = (x + 2 ^ 31) mod 2 ^ 32 - 2 ^ 31"

fun to_int32v :: "jsval \<Rightarrow> int" where
  "to_int32v (Num n) = to_int32 n"
| "to_int32v NaN = 0"
| "to_int32v Undefined = 0"
| "to_int32v Hole = 0"

text \<open>\<^verbatim>\<open>a << k\<close>, \<open>a >> k\<close> (sign-propagating), \<^verbatim>\<open>a & b\<close>, \<^verbatim>\<open>a | b\<close>, \<^verbatim>\<open>a ^ b\<close>.\<close>

definition js_shl :: "jsval \<Rightarrow> nat \<Rightarrow> jsval" where
  "js_shl a k = Num (to_int32 (to_int32v a * 2 ^ k))"

definition js_shr :: "jsval \<Rightarrow> nat \<Rightarrow> jsval" where
  "js_shr a k = Num (to_int32v a div 2 ^ k)"

definition js_and :: "jsval \<Rightarrow> jsval \<Rightarrow> jsval" where
  "js_and a b = Num (to_int32v a AND to_int32v b)"

definition js_or :: "jsval \<Rightarrow> jsval \<Rightarrow> jsval" where
  "js_or a b = Num (to_int32v a OR to_int32v b)"

definition js_xor :: "jsval \<Rightarrow> jsval \<Rightarrow> jsval" where
  "js_xor a b = Num (to_int32v a XOR to_int32v b)"

text \<open>\<^verbatim>\<open>a + b\<close>, \<^verbatim>\<open>a - b\<close>, \<^verbatim>\<open>a * b\<close> on numbers; \<^verbatim>\<open>undefined\<close> converts to \<^verbatim>\<open>NaN\<close>.\<close>

fun js_add :: "jsval \<Rightarrow> jsval \<Rightarrow> jsval" where
  "js_add (Num a) (Num b) = Num (a + b)"
| "js_add _ _ = NaN"

fun js_sub :: "jsval \<Rightarrow> jsval \<Rightarrow> jsval" where
  "js_sub (Num a) (Num b) = Num (a - b)"
| "js_sub _ _ = NaN"

fun js_mul :: "jsval \<Rightarrow> jsval \<Rightarrow> jsval" where
  "js_mul (Num a) (Num b) = Num (a * b)"
| "js_mul _ _ = NaN"

text \<open>\<^verbatim>\<open>a > b\<close> and \<^verbatim>\<open>a === b\<close>: every comparison with \<^verbatim>\<open>NaN\<close> is false.\<close>

fun js_gt :: "jsval \<Rightarrow> jsval \<Rightarrow> bool" where
  "js_gt (Num a) (Num b) = (a > b)"
| "js_gt _ _ = False"

fun js_seq :: "jsval \<Rightarrow> jsval \<Rightarrow> bool" where
  "js_seq (Num a) (Num b) = (a = b)"
| "js_seq Undefined Undefined = True"
| "js_seq _ _ = False"

text \<open>
  \<^verbatim>\<open>a === b / 2\<close>. The quotient is a floating-point number, exact for the integers that
  occur, so it equals the integer \<open>a\<close> precisely when \<open>b = 2 * a\<close>; \<^verbatim>\<open>undefined / 2\<close> is
  \<^verbatim>\<open>NaN\<close>, and the quotient is never \<^verbatim>\<open>undefined\<close>.
\<close>

fun js_seq_half :: "jsval \<Rightarrow> jsval \<Rightarrow> bool" where
  "js_seq_half (Num a) (Num b) = (b = 2 * a)"
| "js_seq_half _ _ = False"

text \<open>Storing a value into a \<^verbatim>\<open>Uint8ClampedArray\<close>: clamped to \<open>0..255\<close>, \<^verbatim>\<open>NaN\<close> is 0.\<close>

fun clamp :: "jsval \<Rightarrow> int" where
  "clamp (Num n) = (if n < 0 then 0 else if n > 255 then 255 else n)"
| "clamp NaN = 0"
| "clamp Undefined = 0"
| "clamp Hole = 0"

text \<open>\<^verbatim>\<open>xs[i]\<close> for an integer index: \<^verbatim>\<open>undefined\<close> outside the array and at a hole.\<close>

definition js_get :: "jsval list \<Rightarrow> int \<Rightarrow> jsval" where
  "js_get xs i =
     (if 0 \<le> i \<and> i < int (length xs)
      then (case xs ! nat i of Hole \<Rightarrow> Undefined | v \<Rightarrow> v)
      else Undefined)"

text \<open>
  \<^verbatim>\<open>xs[i] = v\<close>: past the end the array grows and the slots in between are holes; a
  negative \<open>i\<close> names a property that is not an element.
\<close>

definition js_set :: "jsval list \<Rightarrow> int \<Rightarrow> jsval \<Rightarrow> jsval list" where
  "js_set xs i v =
     (if i < 0 then xs
      else if i < int (length xs) then xs[nat i := v]
      else xs @ replicate (nat i - length xs) Hole @ [v])"

text \<open>
  \<^verbatim>\<open>xs.slice(a, b)\<close>: indices are clipped to the array, negative ones count from the end;
  holes are copied as holes.
\<close>

fun slice_start :: "nat \<Rightarrow> jsval \<Rightarrow> nat" where
  "slice_start len (Num k) = (if k < 0 then nat (max (int len + k) 0) else min (nat k) len)"
| "slice_start len _ = 0"

fun slice_end :: "nat \<Rightarrow> jsval \<Rightarrow> nat" where
  "slice_end len Undefined = len"
| "slice_end len v = slice_start len v"

definition js_slice :: "'a list \<Rightarrow> jsval \<Rightarrow> jsval \<Rightarrow> 'a list" where
  "js_slice xs a b =
     (let s = slice_start (length xs) a; e = slice_end (length xs) b
      in take (e - s) (drop s xs))"

section \<open>Checksum\<close>

text \<open>
  \<^verbatim>\<open>CRC_16(message)\<close>. The running value \<open>crc\<close> is a number; the inner loop body is
  \<^verbatim>\<open>crc = crc & 0x0001 ? (crc >> 1) ^ 0xA001 : crc = crc >> 1\<close>, run for \<open>j = 0..7\<close>.
\<close>

definition crc_bit :: "jsval \<Rightarrow> jsval" where
  "crc_bit crc =
     (if js_and crc (Num 1) \<noteq> Num 0 then js_xor (js_shr crc 1) (Num 0xA001) else js_shr crc 1)"

fun crc_bits :: "nat \<Rightarrow> jsval \<Rightarrow> jsval" where
  "crc_bits 0 crc = crc"
| "crc_bits (Suc j) crc = crc_bits j (crc_bit crc)"

fun crc_loop :: "jsval \<Rightarrow> jsval list \<Rightarrow> jsval" where
  "crc_loop crc [] = crc"
| "crc_loop crc (m # message) = crc_loop (crc_bits 8 (js_xor crc m)) message"

definition CRC_16 :: "jsval list \<Rightarrow> jsval" where
  "CRC_16 message = crc_loop (Num 0xFFFF) message"

definition validateCRC_16 :: "jsval list \<Rightarrow> jsval \<Rightarrow> bool" where
  "validateCRC_16 message crc = js_seq (CRC_16 message) crc"

section \<open>Building and parsing frames\<close>

text \<open>
  \<^verbatim>\<open>makePDU(slaveId, functionId, ...args)\<close>. Each argument is a pair \<open>(value, width)\<close>; a
  width other than 1 or 2 pushes nothing. The result is a \<^verbatim>\<open>Uint8ClampedArray\<close>, here the
  list of its bytes.
\<close>

fun push_args :: "(jsval \<times> nat) list \<Rightarrow> jsval list" where
  "push_args [] = []"
| "push_args ((v, w) # args) =
     (if w = 1 then [v] else []) @
     (if w = 2 then [js_shr v 8, js_and v (Num 255)] else []) @
     push_args args"

definition makePDU :: "jsval \<Rightarrow> jsval \<Rightarrow> (jsval \<times> nat) list \<Rightarrow> int list" where
  "makePDU slaveId functionId args =
     (let untypedArray = [slaveId, functionId] @ push_args args;
          data = map clamp untypedArray;
          crc = CRC_16 (map Num data)
      in map clamp (untypedArray @ [js_and crc (Num 255), js_shr crc 8]))"

text \<open>
  \<^verbatim>\<open>parsePDU(PDU)\<close>. The argument is a list of pairs \<open>(byte, tag)\<close>, tag 0 for a one-byte
  value, 1 for the high byte and 2 for the low byte of a two-byte value. The loop over the
  data part reads \<^verbatim>\<open>data[i + 1][0]\<close> at a high byte; when the high byte is the last entry,
  \<^verbatim>\<open>data[i + 1]\<close> is \<^verbatim>\<open>undefined\<close> and the read throws. The loop runs before the checksum is
  compared. The third test of the loop body, \<^verbatim>\<open>data[i][i] === 2\<close>, has an empty branch. The
  result \<^verbatim>\<open>null\<close> is \<open>None\<close>.
\<close>

record pdu =
  slaveId :: jsval
  functionId :: jsval
  data :: "jsval list"

fun parse_data :: "(jsval \<times> nat) list \<Rightarrow> error + jsval list" where
  "parse_data [] = Inr []"
| "parse_data ((v, t) # rest) =
     (if t = 0 then
        (case parse_data rest of Inl e \<Rightarrow> Inl e | Inr vs \<Rightarrow> Inr (v # vs))
      else if t = 1 then
        (case rest of
           [] \<Rightarrow> Inl TypeError
         | (lo, _) # _ \<Rightarrow>
             (case parse_data rest of
                Inl e \<Rightarrow> Inl e
              | Inr vs \<Rightarrow> Inr (js_add (js_shl v 8) lo # vs)))
      else parse_data rest)"

definition parsePDU :: "(jsval \<times> nat) list \<Rightarrow> error + pdu option" where
  "parsePDU PDU =
     (if length PDU < 2 then Inl TypeError
      else
        let n = length PDU;
            validatablePart = map fst (take (n - 2) PDU);
            dat = drop 2 (take (n - 2) PDU);
            crc = js_add (js_shl (fst (PDU ! (n - 1))) 8) (fst (PDU ! (n - 2)))
        in case parse_data dat of
             Inl e \<Rightarrow> Inl e
           | Inr vs \<Rightarrow>
               if validateCRC_16 validatablePart crc
               then Inr (Some \<lparr>slaveId = fst (PDU ! 0), functionId = fst (PDU ! 1), data = vs\<rparr>)
               else Inr None)"

section \<open>Request handlers\<close>

text \<open>
  A request is the list of bytes of the received buffer (\<^verbatim>\<open>Array.from(request)\<close>);
  \<open>req_at\<close> is \<^verbatim>\<open>request[i]\<close>. The register bank \<^verbatim>\<open>this.tags\<close> is passed in and returned.
  Logging and the file written by \<^verbatim>\<open>saveTags\<close> are not part of the model.

  The read handler calls
  \<^verbatim>\<open>makePDU(id, fn, [quantity * 2, 1], ...this.tags.slice(start, start + quantity).map(x => [x, 2]))\<close>.
  \<^verbatim>\<open>map\<close> leaves a hole of the slice a hole, the spread passes \<^verbatim>\<open>undefined\<close> for it, and
  \<^verbatim>\<open>makePDU\<close> throws when its loop reads \<^verbatim>\<open>arg[1]\<close> of that argument. Nothing is returned or
  stored before the throw, so the model tests the slice for a hole before the call.
\<close>

definition req_at :: "int list \<Rightarrow> nat \<Rightarrow> jsval" where
  "req_at request i = (if i < length request then Num (request ! i) else Undefined)"

definition makeError :: "int list \<Rightarrow> int \<Rightarrow> int list" where
  "makeError request errcode =
     makePDU (req_at request 0) (js_or (req_at request 1) (Num 128)) [(Num errcode, 1)]"

definition out_of_range :: "pdu \<Rightarrow> bool" where
  "out_of_range d =
     (js_gt (js_get (data d) 0) (Num 999) \<or>
      js_gt (js_sub (js_add (js_get (data d) 0) (js_get (data d) 1)) (Num 1)) (Num 999))"

definition handle0x03Request :: "jsval list \<Rightarrow> int list \<Rightarrow> error + int list" where
  "handle0x03Request tags request =
     (let refactoredData =
            [(req_at request 0, 0), (req_at request 1, 0),
             (req_at request 2, 1), (req_at request 3, 2),
             (req_at request 4, 1), (req_at request 5, 2),
             (req_at request 6, 1), (req_at request 7, 2)]
      in case parsePDU refactoredData of
           Inl e \<Rightarrow> Inl e
         | Inr None \<Rightarrow> Inr (makeError request 4)
         | Inr (Some d) \<Rightarrow>
             if out_of_range d then Inr (makeError request 2)
             else
               let registers =
                     js_slice tags (js_get (data d) 0)
                       (js_add (js_get (data d) 0) (js_get (data d) 1))
               in if Hole \<in> set registers then Inl TypeError
                  else Inr (makePDU (slaveId d) (functionId d)
                             ((js_mul (js_get (data d) 1) (Num 2), 1) #
                              map (\<lambda>x. (x, 2)) registers)))"

text \<open>\<^verbatim>\<open>request.slice(7).map((x, i) => [x, (i % 2) + 1])\<close>, \<open>i\<close> counting from the given index.\<close>

fun tag_values :: "nat \<Rightarrow> int list \<Rightarrow> (jsval \<times> nat) list" where
  "tag_values i [] = []"
| "tag_values i (x # xs) = (Num x, i mod 2 + 1) # tag_values (Suc i) xs"

text \<open>
  The write loop \<^verbatim>\<open>for (let i = start; i < start + quantity; i++) tags[i] = data[i - start + 3]\<close>.
\<close>

function write_tags :: "jsval list \<Rightarrow> jsval list \<Rightarrow> int \<Rightarrow> int \<Rightarrow> int \<Rightarrow> jsval list" where
  "write_tags tags vs start i end =
     (if i < end then write_tags (js_set tags i (js_get vs (i - start + 3))) vs start (i + 1) end
      else tags)"
  by pat_completeness auto
termination
  by (relation "measure (\<lambda>(tags, vs, start, i, end). nat (end - i))") auto

declare write_tags.simps [simp del]

text \<open>With a start or an end that is not a number the loop condition is false at once.\<close>

fun write_loop :: "jsval list \<Rightarrow> jsval list \<Rightarrow> jsval \<Rightarrow> jsval \<Rightarrow> jsval list" where
  "write_loop tags vs (Num start) (Num end) = write_tags tags vs start start end"
| "write_loop tags vs _ _ = tags"

definition handle0x10Request :: "jsval list \<Rightarrow> int list \<Rightarrow> error + jsval list \<times> int list" where
  "handle0x10Request tags request =
     (let refactoredData =
            [(req_at request 0, 0), (req_at request 1, 0),
             (req_at request 2, 1), (req_at request 3, 2),
             (req_at request 4, 1), (req_at request 5, 2),
             (req_at request 6, 0)] @ tag_values 0 (drop 7 request)
      in case parsePDU refactoredData of
           Inl e \<Rightarrow> Inl e
         | Inr None \<Rightarrow> Inr (tags, makeError request 4)
         | Inr (Some d) \<Rightarrow>
             if out_of_range d then Inr (tags, makeError request 2)
             else if \<not> js_seq_half (js_get (data d) 1) (js_get (data d) 2)
               then Inr (tags, makeError request 3)
             else if \<not> js_seq (js_get (data d) 1) (Num (int (length (data d)) - 3))
               then Inr (tags, makeError request 3)
             else
               Inr (write_loop tags (data d) (js_get (data d) 0)
                      (js_add (js_get (data d) 0) (js_get (data d) 1)),
                    makePDU (slaveId d) (functionId d)
                      [(js_get (data d) 0, 2), (js_get (data d) 1, 2)]))"

definition handleModbusRequest :: "jsval list \<Rightarrow> int list \<Rightarrow> error + jsval list \<times> int list" where
  "handleModbusRequest tags request =
     (if js_seq (req_at request 1) (Num 0x03) then
        (case handle0x03Request tags request of
           Inl e \<Rightarrow> Inl e
         | Inr response \<Rightarrow> Inr (tags, response))
      else if js_seq (req_at request 1) (Num 0x10) then handle0x10Request tags request
      else Inr (tags, makeError request 1))"

text \<open>
  The \<^verbatim>\<open>'data'\<close> listener of \<^verbatim>\<open>startModbusServer\<close>: a request is handled, and its response
  written to the socket, only when its first byte is the configured id. The result is the
  new register bank and the list of frames written.
\<close>

definition on_data :: "int \<Rightarrow> jsval list \<Rightarrow> int list \<Rightarrow> error + jsval list \<times> int list list" where
  "on_data config_id tags request =
     (if js_seq (req_at request 0) (Num config_id) then
        (case handleModbusRequest tags request of
           Inl e \<Rightarrow> Inl e
         | Inr (tags', response) \<Rightarrow> Inr (tags', [response]))
      else Inr (tags, []))"

text \<open>The register bank \<^verbatim>\<open>loadTags\<close> creates when no file exists: \<^verbatim>\<open>Array(1000).fill(0)\<close>.\<close>

definition defaultTags :: "jsval list" where
  "defaultTags = replicate 1000 (Num 0)"

section \<open>Reference definitions\<close>

text \<open>
  The checksum as the specification words it, on 16-bit words: starting from \<open>0xFFFF\<close>, each
  byte is XORed into the low byte of the running value, followed by eight rounds of: when the
  low bit is set, shift right by one and XOR with \<open>0xA001\<close>, otherwise shift right by one.
\<close>

definition crc16_shift :: "16 word \<Rightarrow> 16 word" where
  "crc16_shift c = (if c AND 1 \<noteq> 0 then drop_bit 1 c XOR 0xA001 else drop_bit 1 c)"

definition crc16_byte :: "16 word \<Rightarrow> 8 word \<Rightarrow> 16 word" where
  "crc16_byte c b = (crc16_shift ^^ 8) (c XOR ucast b)"

definition crc16_spec :: "8 word list \<Rightarrow> 16 word" where
  "crc16_spec bs = fold (\<lambda>b c. crc16_byte c b) bs 0xFFFF"

definition crc16 :: "int list \<Rightarrow> int" where
  "crc16 bs = uint (crc16_spec (map word_of_int bs))"

definition is_byte :: "int \<Rightarrow> bool" where
  "is_byte b = (0 \<le> b \<and> b < 256)"

text \<open>
  The encoder as the specification words it. A field is a pair of a value and its width in
  bytes; a one-byte field is emitted verbatim, a two-byte field high byte first. The checksum
  of all bytes emitted so far is appended low byte first.
\<close>

fun valid_field :: "int \<times> nat \<Rightarrow> bool" where
  "valid_field (v, w) = (if w = 1 then 0 \<le> v \<and> v < 256 else w = 2 \<and> 0 \<le> v \<and> v < 65536)"

fun encode_fields :: "(int \<times> nat) list \<Rightarrow> int list" where
  "encode_fields [] = []"
| "encode_fields ((v, w) # fs) =
     (if w = 1 then [v] else [v div 256, v mod 256]) @ encode_fields fs"

definition with_checksum :: "int list \<Rightarrow> int list" where
  "with_checksum body = body @ [crc16 body mod 256, crc16 body div 256]"

text \<open>A field as the argument pair that \<^verbatim>\<open>makePDU\<close> receives.\<close>

definition js_field :: "int \<times> nat \<Rightarrow> jsval \<times> nat" where
  "js_field f = (Num (fst f), snd f)"

text \<open>
  The layout matching a field list, in the tags \<^verbatim>\<open>parsePDU\<close> reads: 0 for the byte of a
  one-byte field, 1 and 2 for the high and low byte of a two-byte field.
\<close>

fun field_tags :: "(int \<times> nat) list \<Rightarrow> nat list" where
  "field_tags [] = []"
| "field_tags ((v, w) # fs) = (if w = 1 then [0] else [1, 2]) @ field_tags fs"

text \<open>
  The wire layout of requests. A read request (function \<open>0x03\<close>) is eight bytes: unit id,
  function, start (two bytes, high byte first), quantity (two bytes), checksum (low byte
  first). A write request (function \<open>0x10\<close>) carries, after the quantity, a byte count and
  then two-byte values up to the checksum. The transmitted checksum is the last two bytes,
  low byte first, and covers all bytes before it.
\<close>

definition start_of :: "int list \<Rightarrow> int" where
  "start_of req = req ! 2 * 256 + req ! 3"

definition quantity_of :: "int list \<Rightarrow> int" where
  "quantity_of req = req ! 4 * 256 + req ! 5"

definition checksum_ok :: "int list \<Rightarrow> bool" where
  "checksum_ok req =
     (crc16 (take (length req - 2) req) = req ! (length req - 1) * 256 + req ! (length req - 2))"

definition read_request :: "int list \<Rightarrow> bool" where
  "read_request req = (length req = 8 \<and> list_all is_byte req \<and> req ! 1 = 0x03)"

definition write_request :: "int list \<Rightarrow> bool" where
  "write_request req =
     (9 \<le> length req \<and> odd (length req) \<and> list_all is_byte req \<and> req ! 1 = 0x10)"

fun words :: "int list \<Rightarrow> int list" where
  "words (hi # lo # rest) = (hi * 256 + lo) # words rest"
| "words _ = []"

definition values_of :: "int list \<Rightarrow> int list" where
  "values_of req = words (drop 7 (take (length req - 2) req))"

text \<open>
  An exception response: unit id, function with the high bit set, one byte of exception
  code, checksum.
\<close>

definition exception_frame :: "int list \<Rightarrow> int \<Rightarrow> int list" where
  "exception_frame req code = with_checksum [req ! 0, req ! 1 OR 128, code]"

text \<open>A register value is an unsigned 16-bit number.\<close>

definition is_u16 :: "int \<Rightarrow> bool" where
  "is_u16 v = (0 \<le> v \<and> v < 65536)"

text \<open>
  A well-formed frame: at least unit id, function and checksum, all bytes, and the last two
  bytes the checksum of the bytes before them.
\<close>

definition well_formed :: "int list \<Rightarrow> bool" where
  "well_formed frame = (4 \<le> length frame \<and> list_all is_byte frame \<and> checksum_ok frame)"

section \<open>The checksum computes the Modbus CRC-16\<close>

lemma to_int32_nonneg: "0 \<le> x \<Longrightarrow> x < 2 ^ 31 \<Longrightarrow> to_int32 x = x"
  by (simp add: to_int32_def)

lemma uint16_range: "0 \<le> uint (c :: 16 word)" "uint (c :: 16 word) < 65536"
  using uint_bounded [of c] by simp_all

lemma uint8_range: "0 \<le> uint (c :: 8 word)" "uint (c :: 8 word) < 256"
  using uint_bounded [of c] by simp_all

lemma to_int32_uint16 [simp]: "to_int32 (uint (c :: 16 word)) = uint c"
  using uint16_range [of c] by (intro to_int32_nonneg) simp_all

lemma to_int32_uint8 [simp]: "to_int32 (uint (c :: 8 word)) = uint c"
  using uint8_range [of c] by (intro to_int32_nonneg) simp_all

lemma to_int32_consts [simp]:
  "to_int32 0 = 0" "to_int32 1 = 1" "to_int32 0xA001 = 0xA001"
  "to_int32 255 = 255" "to_int32 128 = 128" "to_int32 0xFFFF = 0xFFFF"
  by (simp_all add: to_int32_def)

lemma crc_bit_word: "crc_bit (Num (uint c)) = Num (uint (crc16_shift c))"
proof -
  have low: "(uint c AND 1 = 0) = (c AND 1 = 0)"
    by (metis uint_and uint_1_eq uint_0_eq word_uint_eq_iff)
  have shifted: "uint (drop_bit 1 c) = uint c div 2"
    by (simp add: drop_bit_eq_div uint_div)
  have small: "to_int32 (uint c div 2) = uint c div 2"
    using uint16_range [of c] by (intro to_int32_nonneg) simp_all
  show ?thesis
    using shifted small
    by (simp add: crc_bit_def crc16_shift_def js_and_def js_xor_def js_shr_def low uint_xor)
qed

lemma crc_bits_word: "crc_bits j (Num (uint c)) = Num (uint ((crc16_shift ^^ j) c))"
  by (induction j arbitrary: c) (simp_all add: crc_bit_word funpow_swap1)

lemma crc_loop_word:
  "crc_loop (Num (uint c)) (map (\<lambda>b. Num (uint b)) bs) =
   Num (uint (fold (\<lambda>b c. crc16_byte c b) bs c))"
proof (induction bs arbitrary: c)
  case Nil
  show ?case by simp
next
  case (Cons b bs)
  have "take_bit 16 (uint b) = uint b"
    using uint8_range [of b] by (intro take_bit_int_eq_self) simp_all
  then have "js_xor (Num (uint c)) (Num (uint b)) = Num (uint (c XOR ucast b))"
    by (simp add: js_xor_def uint_xor unsigned_ucast_eq)
  then show ?case
    by (simp add: crc_bits_word crc16_byte_def Cons.IH)
qed

text \<open>
  Claim C1. On every byte sequence \<^verbatim>\<open>CRC_16\<close> returns the CRC-16 of the specification
  (polynomial \<open>0xA001\<close>, initial value \<open>0xFFFF\<close>, byte by byte, eight shift rounds per
  byte), and on the reference frame \<open>01 03 00 00 00 0A\<close> it returns \<open>0xCDC5\<close>.
\<close>

theorem CRC_16_is_crc16:
  "CRC_16 (map (\<lambda>b. Num (uint b)) bs) = Num (uint (crc16_spec bs)) \<and>
   CRC_16 (map Num [0x01, 0x03, 0x00, 0x00, 0x00, 0x0A]) = Num 0xCDC5"
proof
  have "Num (uint (0xFFFF :: 16 word)) = Num 0xFFFF" by simp
  then show "CRC_16 (map (\<lambda>b. Num (uint b)) bs) = Num (uint (crc16_spec bs))"
    using crc_loop_word [of "0xFFFF" bs] by (simp add: CRC_16_def crc16_spec_def)
  show "CRC_16 (map Num [0x01, 0x03, 0x00, 0x00, 0x00, 0x0A]) = Num 0xCDC5"
    by (simp add: CRC_16_def crc_bit_def js_and_def js_xor_def js_shr_def to_int32_def
        eval_nat_numeral)
qed

section \<open>Frames built by the encoder\<close>

lemma crc16_range: "0 \<le> crc16 bs" "crc16 bs < 65536"
  using uint16_range [of "crc16_spec (map word_of_int bs)"] by (simp_all add: crc16_def)

lemma Num_byte: "is_byte b \<Longrightarrow> Num b = Num (uint (word_of_int b :: 8 word))"
  by (simp add: is_byte_def uint_word_of_int)

lemma CRC_16_bytes: "list_all is_byte bs \<Longrightarrow> CRC_16 (map Num bs) = Num (crc16 bs)"
proof -
  assume "list_all is_byte bs"
  then have "map Num bs = map (\<lambda>b. Num (uint b)) (map word_of_int bs :: 8 word list)"
    by (induction bs) (simp_all add: Num_byte)
  moreover have "Num (uint (0xFFFF :: 16 word)) = Num 0xFFFF" by simp
  ultimately show ?thesis
    using crc_loop_word [of "0xFFFF" "map word_of_int bs"]
    by (simp only: CRC_16_def crc16_def crc16_spec_def)
qed

lemma js_shr8: "0 \<le> v \<Longrightarrow> v < 2 ^ 31 \<Longrightarrow> js_shr (Num v) 8 = Num (v div 256)"
  by (simp add: js_shr_def to_int32_nonneg)

lemma and_255: "(v :: int) AND 255 = v mod 256"
proof -
  have "v AND mask 8 = v mod 2 ^ 8"
    by (simp only: take_bit_eq_mask [symmetric] take_bit_eq_mod)
  then show ?thesis by (simp add: mask_eq_exp_minus_1)
qed

lemma js_and255: "0 \<le> v \<Longrightarrow> v < 2 ^ 31 \<Longrightarrow> js_and (Num v) (Num 255) = Num (v mod 256)"
  by (simp add: js_and_def to_int32_nonneg and_255)

lemma js_word: "is_byte hi \<Longrightarrow> js_add (js_shl (Num hi) 8) (Num lo) = Num (hi * 256 + lo)"
proof -
  assume "is_byte hi"
  then have "to_int32 hi = hi" "to_int32 (hi * 256) = hi * 256"
    by (auto simp: is_byte_def intro!: to_int32_nonneg)
  then show ?thesis by (simp add: js_shl_def)
qed

lemma clamp_byte: "is_byte b \<Longrightarrow> clamp (Num b) = b"
  by (simp add: is_byte_def)

lemma map_clamp_bytes: "list_all is_byte bs \<Longrightarrow> map clamp (map Num bs) = bs"
  by (induction bs) (simp_all add: is_byte_def)

lemma encode_fields_bytes: "list_all valid_field fs \<Longrightarrow> list_all is_byte (encode_fields fs)"
proof (induction fs)
  case Nil
  show ?case by simp
next
  case (Cons f fs)
  obtain v w where f: "f = (v, w)" by (cases f)
  from Cons.prems f have "if w = 1 then is_byte v else is_byte (v div 256) \<and> is_byte (v mod 256)"
    by (auto simp: is_byte_def split: if_splits)
  with Cons f show ?case by (auto split: if_splits)
qed

lemma push_args_valid:
  "list_all valid_field fs \<Longrightarrow> push_args (map js_field fs) = map Num (encode_fields fs)"
proof (induction fs)
  case Nil
  show ?case by simp
next
  case (Cons f fs)
  obtain v w where f: "f = (v, w)" by (cases f)
  show ?case
  proof (cases "w = 1")
    case True
    with Cons f show ?thesis by (simp add: js_field_def)
  next
    case False
    with Cons.prems f have v: "w = 2" "0 \<le> v" "v < 65536" by (simp_all split: if_splits)
    then have "js_shr (Num v) 8 = Num (v div 256)" "js_and (Num v) (Num 255) = Num (v mod 256)"
      by (simp_all add: js_shr8 js_and255)
    with Cons f v show ?thesis by (simp add: js_field_def)
  qed
qed

lemma checksum_bytes:
  "js_and (Num (crc16 bs)) (Num 255) = Num (crc16 bs mod 256)"
  "js_shr (Num (crc16 bs)) 8 = Num (crc16 bs div 256)"
  "is_byte (crc16 bs mod 256)" "is_byte (crc16 bs div 256)"
proof -
  have r: "0 \<le> crc16 bs" "crc16 bs < 65536" by (rule crc16_range)+
  then show "js_and (Num (crc16 bs)) (Num 255) = Num (crc16 bs mod 256)"
    "js_shr (Num (crc16 bs)) 8 = Num (crc16 bs div 256)"
    by (simp_all add: js_and255 js_shr8)
  show "is_byte (crc16 bs mod 256)" by (simp add: is_byte_def)
  from r show "is_byte (crc16 bs div 256)" unfolding is_byte_def by arith
qed

lemma makePDU_bytes:
  assumes "list_all is_byte body" "map Num body = [sid, fid] @ push_args args"
  shows "makePDU sid fid args = with_checksum body"
proof -
  have a: "map clamp ([sid, fid] @ push_args args) = body"
    using assms map_clamp_bytes [of body] by simp
  have b: "CRC_16 (map Num body) = Num (crc16 body)"
    using assms(1) by (rule CRC_16_bytes)
  show ?thesis
    unfolding makePDU_def Let_def a b with_checksum_def
    using a by (simp add: checksum_bytes clamp_byte del: clamp.simps)
qed

lemma makePDU_valid:
  assumes "is_byte unitId" "is_byte fnId" "list_all valid_field fs"
  shows "makePDU (Num unitId) (Num fnId) (map js_field fs) =
         with_checksum (unitId # fnId # encode_fields fs)"
  using assms by (intro makePDU_bytes) (simp_all add: push_args_valid encode_fields_bytes)

text \<open>
  Claim C2. For a unit id and a function id that are bytes and fields that fit their widths,
  \<^verbatim>\<open>makePDU\<close> emits the unit id, the function id, each field (one byte verbatim, two bytes
  high byte first) and then the CRC-16 of all these bytes, low byte first, high byte second.
\<close>

theorem makePDU_encodes:
  assumes "is_byte unitId" "is_byte fnId" "list_all valid_field fs"
  shows "makePDU (Num unitId) (Num fnId) (map js_field fs) =
         with_checksum (unitId # fnId # encode_fields fs)"
  using assms by (rule makePDU_valid)

lemma crc16_eval: "list_all is_byte bs \<Longrightarrow> CRC_16 (map Num bs) = Num c \<Longrightarrow> crc16 bs = c"
  by (simp add: CRC_16_bytes)

lemmas js_eval = CRC_16_def crc_bit_def js_and_def js_xor_def js_shr_def js_shl_def js_or_def to_int32_def
        eval_nat_numeral

theorem makePDU_encodes_witness:
  "is_byte 1 \<and> is_byte 3 \<and> list_all valid_field [(0, 2), (10, 2)] \<and>
   makePDU (Num 1) (Num 3) (map js_field [(0, 2), (10, 2)]) = [1, 3, 0, 0, 0, 10, 0xC5, 0xCD]"
proof -
  have h: "is_byte 1" "is_byte 3" "list_all valid_field [(0, 2), (10, 2)]"
    by (simp_all add: is_byte_def)
  have "crc16 [1, 3, 0, 0, 0, 10] = 0xCDC5"
    by (rule crc16_eval) (simp_all add: is_byte_def js_eval)
  then show ?thesis
    using h makePDU_encodes [OF h] by (simp add: with_checksum_def)
qed

section \<open>Round trip through the parser\<close>

lemma parsePDU_shape:
  "parsePDU (h0 # h1 # body @ [(lo, t1), (hi, t2)]) =
     (case parse_data body of
        Inl e \<Rightarrow> Inl e
      | Inr vs \<Rightarrow>
          if validateCRC_16 (fst h0 # fst h1 # map fst body) (js_add (js_shl hi 8) lo)
          then Inr (Some \<lparr>slaveId = fst h0, functionId = fst h1, data = vs\<rparr>)
          else Inr None)"
proof -
  let ?P = "h0 # h1 # body @ [(lo, t1), (hi, t2)]"
  have n: "length ?P - 2 = Suc (Suc (length body))" by simp
  have t: "take (Suc (Suc (length body))) ?P = h0 # h1 # body" by simp
  have a: "?P ! (length ?P - 1) = (hi, t2)"
    by (simp add: nth_append)
  have b: "?P ! (length ?P - 2) = (lo, t1)"
    unfolding n by (simp add: nth_append)
  have c: "\<not> length ?P < 2" by simp
  show ?thesis
    unfolding parsePDU_def Let_def a b n t using c
    by (simp split: sum.splits)
qed

lemma length_field_tags: "length (field_tags fs) = length (encode_fields fs)"
  by (induction fs) auto

lemma parse_data_fields:
  "list_all valid_field fs \<Longrightarrow>
   parse_data (zip (map Num (encode_fields fs)) (field_tags fs)) = Inr (map (\<lambda>f. Num (fst f)) fs)"
proof (induction fs)
  case Nil
  show ?case by simp
next
  case (Cons f fs)
  obtain v w where f: "f = (v, w)" by (cases f)
  show ?case
  proof (cases "w = 1")
    case True
    with Cons f show ?thesis by simp
  next
    case False
    with Cons.prems f have v: "w = 2" "0 \<le> v" "v < 65536" by (simp_all split: if_splits)
    then have "is_byte (v div 256)" unfolding is_byte_def by arith
    then have "js_add (js_shl (Num (v div 256)) 8) (Num (v mod 256)) = Num v"
      by (simp add: js_word)
    with Cons f v show ?thesis by simp
  qed
qed

text \<open>
  Claim C3. Parsing the frame that \<^verbatim>\<open>makePDU\<close> builds from valid fields, under the layout
  matching these fields (whatever the tags of the two checksum bytes), succeeds and returns
  the unit id, the function id and the field values in order.
\<close>

theorem parsePDU_makePDU:
  assumes "is_byte unitId" "is_byte fnId" "list_all valid_field fs"
  shows "parsePDU (zip (map Num (makePDU (Num unitId) (Num fnId) (map js_field fs)))
                      ([0, 0] @ field_tags fs @ [t1, t2])) =
         Inr (Some \<lparr>slaveId = Num unitId, functionId = Num fnId, data = map (\<lambda>f. Num (fst f)) fs\<rparr>)"
proof -
  let ?body = "unitId # fnId # encode_fields fs"
  let ?c = "crc16 ?body"
  have bytes: "list_all is_byte ?body"
    using assms by (simp add: encode_fields_bytes)
  have frame: "makePDU (Num unitId) (Num fnId) (map js_field fs) = with_checksum ?body"
    using assms by (intro makePDU_bytes) (simp_all add: push_args_valid encode_fields_bytes)
  have z: "zip (map Num (with_checksum ?body)) ([0, 0] @ field_tags fs @ [t1, t2]) =
           (Num unitId, 0) # (Num fnId, 0) # zip (map Num (encode_fields fs)) (field_tags fs) @
           [(Num (?c mod 256), t1), (Num (?c div 256), t2)]"
    by (simp add: with_checksum_def length_field_tags)
  have crc: "js_add (js_shl (Num (?c div 256)) 8) (Num (?c mod 256)) = Num ?c"
    by (simp add: js_word checksum_bytes)
  have m: "map fst (zip (map Num (encode_fields fs)) (field_tags fs)) = map Num (encode_fields fs)"
    by (simp add: length_field_tags)
  have v: "validateCRC_16 (Num unitId # Num fnId # map Num (encode_fields fs)) (Num ?c)"
    using CRC_16_bytes [OF bytes] by (simp add: validateCRC_16_def)
  show ?thesis
    unfolding frame z parsePDU_shape
    using v by (simp add: parse_data_fields [OF assms(3)] crc m)
qed

theorem parsePDU_makePDU_witness:
  "is_byte 1 \<and> is_byte 16 \<and> list_all valid_field [(7, 2), (2, 2), (4, 1), (258, 2), (65535, 2)] \<and>
   parsePDU (zip (map Num (makePDU (Num 1) (Num 16) (map js_field [(7, 2), (2, 2), (4, 1), (258, 2), (65535, 2)])))
                      ([0, 0] @ field_tags [(7, 2), (2, 2), (4, 1), (258, 2), (65535, 2)] @ [1, 2])) =
         Inr (Some \<lparr>slaveId = Num 1, functionId = Num 16, data = [Num 7, Num 2, Num 4, Num 258, Num 65535]\<rparr>)"
proof -
  have h: "is_byte 1" "is_byte 16" "list_all valid_field [(7, 2), (2, 2), (4, 1), (258, 2), (65535, 2)]"
    by (simp_all add: is_byte_def)
  show ?thesis
    using h parsePDU_makePDU [OF h, of 1 2] by simp
qed

section \<open>The handlers on read and write requests\<close>

lemma or_128_byte: "is_byte f \<Longrightarrow> is_byte (f OR 128)"
proof -
  assume "is_byte f"
  then have "0 \<le> f" "f < 2 ^ 8" by (simp_all add: is_byte_def)
  then have "f OR 128 < 2 ^ 8" by (intro OR_upper) simp_all
  moreover have "0 \<le> f OR 128" using \<open>0 \<le> f\<close> by simp
  ultimately show ?thesis by (simp add: is_byte_def)
qed

lemma js_or_128: "is_byte f \<Longrightarrow> js_or (Num f) (Num 128) = Num (f OR 128)"
  by (simp add: js_or_def is_byte_def to_int32_nonneg)

lemma makeError_frame:
  assumes "2 \<le> length req" "is_byte (req ! 0)" "is_byte (req ! 1)" "is_byte code"
  shows "makeError req code = exception_frame req code"
proof -
  have "req_at req 0 = Num (req ! 0)" "req_at req 1 = Num (req ! 1)"
    using assms(1) by (auto simp: req_at_def)
  then show ?thesis
    unfolding makeError_def exception_frame_def
    using assms by (intro makePDU_bytes) (simp_all add: js_or_128 or_128_byte)
qed

lemma tag_values_shift: "tag_values (Suc (Suc i)) xs = tag_values i xs"
  by (induction xs arbitrary: i) (simp_all add: mod_Suc)

lemma tag_values_append:
  "even (length xs) \<Longrightarrow> tag_values 0 (xs @ ys) = tag_values 0 xs @ tag_values 0 ys"
  by (induction xs rule: words.induct) (simp_all add: tag_values_shift)

lemma parse_data_values:
  "even (length xs) \<Longrightarrow> list_all is_byte xs \<Longrightarrow>
   parse_data (tag_values 0 xs) = Inr (map Num (words xs))"
  by (induction xs rule: words.induct) (simp_all add: tag_values_shift js_word)

lemma map_fst_tag_values: "map fst (tag_values i xs) = map Num xs"
  by (induction xs arbitrary: i) simp_all

lemma length_words: "even (length xs) \<Longrightarrow> 2 * length (words xs) = length xs"
  by (induction xs rule: words.induct) simp_all


subsection \<open>Read requests\<close>

lemma parse_read:
  assumes "list_all is_byte [u, f, a, b, c, d, cl, ch]"
  shows "parsePDU [(Num u, 0), (Num f, 0), (Num a, 1), (Num b, 2), (Num c, 1), (Num d, 2),
                   (Num cl, 1), (Num ch, 2)] =
         Inr (if crc16 [u, f, a, b, c, d] = ch * 256 + cl
              then Some \<lparr>slaveId = Num u, functionId = Num f,
                         data = [Num (a * 256 + b), Num (c * 256 + d)]\<rparr>
              else None)"
proof -
  have crc: "CRC_16 [Num u, Num f, Num a, Num b, Num c, Num d] = Num (crc16 [u, f, a, b, c, d])"
    using CRC_16_bytes [of "[u, f, a, b, c, d]"] assms by simp
  have w: "js_add (js_shl (Num a) 8) (Num b) = Num (a * 256 + b)"
    "js_add (js_shl (Num c) 8) (Num d) = Num (c * 256 + d)"
    "js_add (js_shl (Num ch) 8) (Num cl) = Num (ch * 256 + cl)"
    using assms by (simp_all add: js_word)
  show ?thesis
    using parsePDU_shape [of "(Num u, 0)" "(Num f, 0)"
        "[(Num a, 1), (Num b, 2), (Num c, 1), (Num d, 2)]" "Num cl" 1 "Num ch" 2]
    by (simp add: w crc validateCRC_16_def)
qed

lemma handle0x03_frame:
  assumes "list_all is_byte [u, f, a, b, c, d, cl, ch]"
  shows "handle0x03Request tags [u, f, a, b, c, d, cl, ch] =
         (if crc16 [u, f, a, b, c, d] \<noteq> ch * 256 + cl
            then Inr (makeError [u, f, a, b, c, d, cl, ch] 4)
          else if 999 < a * 256 + b \<or> 999 < a * 256 + b + (c * 256 + d) - 1
            then Inr (makeError [u, f, a, b, c, d, cl, ch] 2)
          else if Hole \<in> set (js_slice tags (Num (a * 256 + b))
                                 (Num (a * 256 + b + (c * 256 + d))))
            then Inl TypeError
          else Inr (makePDU (Num u) (Num f)
                     ((Num ((c * 256 + d) * 2), 1) #
                      map (\<lambda>x. (x, 2))
                        (js_slice tags (Num (a * 256 + b))
                           (Num (a * 256 + b + (c * 256 + d)))))))"
proof -
  have r: "[(req_at [u, f, a, b, c, d, cl, ch] 0, 0), (req_at [u, f, a, b, c, d, cl, ch] 1, 0),
            (req_at [u, f, a, b, c, d, cl, ch] 2, 1), (req_at [u, f, a, b, c, d, cl, ch] 3, 2),
            (req_at [u, f, a, b, c, d, cl, ch] 4, 1), (req_at [u, f, a, b, c, d, cl, ch] 5, 2),
            (req_at [u, f, a, b, c, d, cl, ch] 6, 1), (req_at [u, f, a, b, c, d, cl, ch] 7, 2)] =
           [(Num u, 0), (Num f, 0), (Num a, 1), (Num b, 2), (Num c, 1), (Num d, 2),
            (Num cl, 1), (Num ch, 2 :: nat)]"
    by (simp add: req_at_def)
  show ?thesis
    unfolding handle0x03Request_def Let_def r parse_read [OF assms]
    by (simp add: out_of_range_def js_get_def)
qed

lemma js_slice_range:
  "0 \<le> s \<Longrightarrow> 0 \<le> q \<Longrightarrow> s + q \<le> int (length xs) \<Longrightarrow>
   js_slice xs (Num s) (Num (s + q)) = take (nat q) (drop (nat s) xs)"
proof -
  assume a: "0 \<le> s" "0 \<le> q" "s + q \<le> int (length xs)"
  then have "min (nat (s + q)) (length xs) - min (nat s) (length xs) = nat q"
    by (simp add: min_def) arith
  moreover have "min (nat s) (length xs) = nat s" using a by simp
  ultimately show ?thesis using a by (simp add: js_slice_def)
qed

lemma read_request_cases:
  assumes "read_request req"
  obtains u a b c d cl ch where "req = [u, 3, a, b, c, d, cl, ch]"
proof -
  from assms have "length req = 8" "req ! 1 = 3" by (simp_all add: read_request_def)
  then obtain u f a b c d cl ch where "req = [u, f, a, b, c, d, cl, ch]"
    by (auto simp: eval_nat_numeral length_Suc_conv)
  with \<open>req ! 1 = 3\<close> that show thesis by simp
qed

lemma handle_read:
  assumes "read_request req"
  shows "handleModbusRequest tags req =
         (if \<not> checksum_ok req then Inr (tags, exception_frame req 4)
          else if 999 < start_of req \<or> 999 < start_of req + quantity_of req - 1
            then Inr (tags, exception_frame req 2)
          else if Hole \<in> set (js_slice tags (Num (start_of req))
                                 (Num (start_of req + quantity_of req)))
            then Inl TypeError
          else Inr (tags, makePDU (Num (req ! 0)) (Num 3)
                     ((Num (quantity_of req * 2), 1) #
                      map (\<lambda>x. (x, 2))
                        (js_slice tags (Num (start_of req))
                           (Num (start_of req + quantity_of req))))))"
proof -
  from assms obtain u a b c d cl ch where req: "req = [u, 3, a, b, c, d, cl, ch]"
    by (rule read_request_cases)
  from assms have bytes: "list_all is_byte [u, 3, a, b, c, d, cl, ch]"
    by (simp add: read_request_def req)
  have err: "makeError req code = exception_frame req code" if "is_byte code" for code
    using bytes that by (intro makeError_frame) (simp_all add: req)
  have e: "makeError req 4 = exception_frame req 4" "makeError req 2 = exception_frame req 2"
    by (rule err, simp add: is_byte_def)+
  have f: "js_seq (req_at req 1) (Num 3)" by (simp add: req req_at_def)
  show ?thesis
    unfolding handleModbusRequest_def using f e
    by (simp add: req handle0x03_frame [OF bytes] checksum_ok_def start_of_def quantity_of_def)
qed

subsection \<open>Write requests\<close>

lemma parse_write:
  assumes "list_all is_byte (u # f # a # b # c # d # bc # payload @ [cl, ch])"
    and "even (length payload)"
  shows "parsePDU ([(Num u, 0), (Num f, 0), (Num a, 1), (Num b, 2), (Num c, 1), (Num d, 2),
                    (Num bc, 0)] @ tag_values 0 (payload @ [cl, ch])) =
         Inr (if crc16 (u # f # a # b # c # d # bc # payload) = ch * 256 + cl
              then Some \<lparr>slaveId = Num u, functionId = Num f,
                         data = Num (a * 256 + b) # Num (c * 256 + d) # Num bc #
                                map Num (words payload)\<rparr>
              else None)"
proof -
  let ?body = "[(Num a, 1), (Num b, 2), (Num c, 1), (Num d, 2), (Num bc, 0)] @ tag_values 0 payload"
  have bytes: "list_all is_byte (u # f # a # b # c # d # bc # payload)" "list_all is_byte payload"
    using assms(1) by simp_all
  have crc: "CRC_16 (Num u # Num f # Num a # Num b # Num c # Num d # Num bc # map Num payload) =
             Num (crc16 (u # f # a # b # c # d # bc # payload))"
    using CRC_16_bytes [OF bytes(1)] by simp
  have w: "js_add (js_shl (Num a) 8) (Num b) = Num (a * 256 + b)"
    "js_add (js_shl (Num c) 8) (Num d) = Num (c * 256 + d)"
    "js_add (js_shl (Num ch) 8) (Num cl) = Num (ch * 256 + cl)"
    using assms(1) by (simp_all add: js_word)
  have p: "parse_data ?body =
           Inr (Num (a * 256 + b) # Num (c * 256 + d) # Num bc # map Num (words payload))"
    using parse_data_values [OF assms(2) bytes(2)] by (simp add: w)
  have shape: "[(Num u, 0), (Num f, 0), (Num a, 1), (Num b, 2), (Num c, 1), (Num d, 2),
                (Num bc, 0)] @ tag_values 0 (payload @ [cl, ch]) =
               (Num u, 0) # (Num f, 0) # ?body @ [(Num cl, 1), (Num ch, 2)]"
    using assms(2) by (simp add: tag_values_append)
  have m: "map fst ?body = Num a # Num b # Num c # Num d # Num bc # map Num payload"
    by (simp add: map_fst_tag_values)
  show ?thesis
    unfolding shape parsePDU_shape p m
    by (simp add: w crc validateCRC_16_def)
qed

lemma handle0x10_frame:
  assumes "list_all is_byte (u # f # a # b # c # d # bc # payload @ [cl, ch])"
    and "even (length payload)"
    and "req = u # f # a # b # c # d # bc # payload @ [cl, ch]"
  shows "handle0x10Request tags req =
         Inr (if crc16 (u # f # a # b # c # d # bc # payload) \<noteq> ch * 256 + cl
                then (tags, makeError req 4)
              else if 999 < a * 256 + b \<or> 999 < a * 256 + b + (c * 256 + d) - 1
                then (tags, makeError req 2)
              else if bc \<noteq> 2 * (c * 256 + d) then (tags, makeError req 3)
              else if c * 256 + d \<noteq> int (length (words payload)) then (tags, makeError req 3)
              else (write_tags tags
                      (Num (a * 256 + b) # Num (c * 256 + d) # Num bc # map Num (words payload))
                      (a * 256 + b) (a * 256 + b) (a * 256 + b + (c * 256 + d)),
                    makePDU (Num u) (Num f) [(Num (a * 256 + b), 2), (Num (c * 256 + d), 2)]))"
proof -
  have r: "[(req_at req 0, 0), (req_at req 1, 0), (req_at req 2, 1), (req_at req 3, 2),
            (req_at req 4, 1), (req_at req 5, 2), (req_at req 6, 0)] @ tag_values 0 (drop 7 req) =
           [(Num u, 0), (Num f, 0), (Num a, 1), (Num b, 2), (Num c, 1), (Num d, 2), (Num bc, 0 :: nat)]
           @ tag_values 0 (payload @ [cl, ch])"
    by (simp add: req_at_def assms(3))
  show ?thesis
    unfolding handle0x10Request_def Let_def r parse_write [OF assms(1,2)]
    by (simp add: out_of_range_def js_get_def)
qed

lemma write_request_cases:
  assumes "write_request req"
  obtains u a b c d bc payload cl ch
  where "req = u # 16 # a # b # c # d # bc # payload @ [cl, ch]" "even (length payload)"
proof -
  from assms have len: "9 \<le> length req" "odd (length req)" and f: "req ! 1 = 16"
    by (simp_all add: write_request_def)
  from len(1) obtain u f a b c d bc rest where r: "req = u # f # a # b # c # d # bc # rest"
    by (cases req; simp; rename_tac x0 r0; case_tac r0; simp; rename_tac x1 r1; case_tac r1; simp;
        rename_tac x2 r2; case_tac r2; simp; rename_tac x3 r3; case_tac r3; simp;
        rename_tac x4 r4; case_tac r4; simp; rename_tac x5 r5; case_tac r5; simp)
  with len(1) have "2 \<le> length rest" by simp
  then obtain payload cl ch where rest: "rest = payload @ [cl, ch]"
    by (cases rest rule: rev_cases; simp; rename_tac ys y; case_tac ys rule: rev_cases; simp)
  from len(2) have "even (length payload)" by (simp add: r rest)
  with r rest f that show thesis by simp
qed

lemma handle_write:
  assumes "write_request req"
  shows "handleModbusRequest tags req =
         Inr (if \<not> checksum_ok req then (tags, exception_frame req 4)
              else if 999 < start_of req \<or> 999 < start_of req + quantity_of req - 1
                then (tags, exception_frame req 2)
              else if req ! 6 \<noteq> 2 * quantity_of req then (tags, exception_frame req 3)
              else if quantity_of req \<noteq> int (length (values_of req))
                then (tags, exception_frame req 3)
              else (write_tags tags
                      (Num (start_of req) # Num (quantity_of req) # Num (req ! 6) #
                       map Num (values_of req))
                      (start_of req) (start_of req) (start_of req + quantity_of req),
                    makePDU (Num (req ! 0)) (Num 16)
                      [(Num (start_of req), 2), (Num (quantity_of req), 2)]))"
proof -
  from assms obtain u a b c d bc payload cl ch
    where req: "req = u # 16 # a # b # c # d # bc # payload @ [cl, ch]"
      and ev: "even (length payload)"
    by (rule write_request_cases)
  from assms have bytes: "list_all is_byte (u # 16 # a # b # c # d # bc # payload @ [cl, ch])"
    by (simp add: write_request_def req)
  have err: "makeError req code = exception_frame req code" if "is_byte code" for code
    using bytes that by (intro makeError_frame) (simp_all add: req)
  have e: "makeError req 4 = exception_frame req 4" "makeError req 2 = exception_frame req 2"
    "makeError req 3 = exception_frame req 3"
    by (rule err, simp add: is_byte_def)+
  have f: "\<not> js_seq (req_at req 1) (Num 3)" "js_seq (req_at req 1) (Num 16)"
    by (simp_all add: req req_at_def)
  have acc: "start_of req = a * 256 + b" "quantity_of req = c * 256 + d" "req ! 6 = bc"
    "req ! 0 = u"
    by (simp_all add: req start_of_def quantity_of_def)
  have v: "values_of req = words payload"
    by (simp add: req values_of_def)
  have ck: "checksum_ok req = (crc16 (u # 16 # a # b # c # d # bc # payload) = ch * 256 + cl)"
    by (simp add: req checksum_ok_def nth_append)
  show ?thesis
    unfolding handleModbusRequest_def acc v ck
    using f e handle0x10_frame [OF bytes ev req, of tags]
    by simp
qed

subsection \<open>Other function codes\<close>

lemma handle_other:
  assumes "2 \<le> length req" "list_all is_byte req" "req ! 1 \<noteq> 3" "req ! 1 \<noteq> 16"
  shows "handleModbusRequest tags req = Inr (tags, exception_frame req 1)"
proof -
  from assms(1) have "req \<noteq> []" "0 < length req" "1 < length req" by auto
  with assms(2) have b: "is_byte (req ! 0)" "is_byte (req ! 1)"
    by (simp_all add: list_all_length)
  have "makeError req 1 = exception_frame req 1"
    using assms(1) b by (intro makeError_frame) (simp_all add: is_byte_def)
  moreover have "req_at req 1 = Num (req ! 1)"
    using assms(1) by (auto simp: req_at_def)
  ultimately show ?thesis
    using assms(3,4) by (simp add: handleModbusRequest_def)
qed

text \<open>
  Claim C10. A request whose function code (byte 1) is neither \<open>0x03\<close> nor \<open>0x10\<close> is
  answered, whatever its checksum, with the frame: unit id (byte 0), function code with the
  high bit set, exception code 1, checksum. The register bank is unchanged.
\<close>

theorem illegal_function_exception:
  assumes "2 \<le> length req" "list_all is_byte req" "req ! 1 \<noteq> 0x03" "req ! 1 \<noteq> 0x10"
  shows "handleModbusRequest tags req = Inr (tags, with_checksum [req ! 0, req ! 1 OR 0x80, 1])"
  using handle_other [OF assms] by (simp add: exception_frame_def)

theorem illegal_function_exception_witness:
  "2 \<le> length [1, 0x06, 0, 0, 0, 0, 0, 0 :: int] \<and> list_all is_byte [1, 0x06, 0, 0, 0, 0, 0, 0] \<and>
   [1, 0x06, 0, 0, 0, 0, 0, 0 :: int] ! 1 \<noteq> 0x03 \<and> [1, 0x06, 0, 0, 0, 0, 0, 0 :: int] ! 1 \<noteq> 0x10 \<and>
   handleModbusRequest defaultTags [1, 0x06, 0, 0, 0, 0, 0, 0] =
     Inr (defaultTags, [1, 0x86, 1, 0x83, 0xA0])"
proof -
  have h: "2 \<le> length [1, 0x06, 0, 0, 0, 0, 0, 0 :: int]" "list_all is_byte [1, 0x06, 0, 0, 0, 0, 0, 0]"
    "[1, 0x06, 0, 0, 0, 0, 0, 0 :: int] ! 1 \<noteq> 0x03" "[1, 0x06, 0, 0, 0, 0, 0, 0 :: int] ! 1 \<noteq> 0x10"
    by (simp_all add: is_byte_def)
  have c: "crc16 [1, 0x86, 1] = 0xA083"
    by (rule crc16_eval) (simp_all add: is_byte_def js_eval)
  show ?thesis
    using h illegal_function_exception [OF h, of defaultTags] by (simp add: with_checksum_def c)
qed

subsection \<open>Exception responses\<close>

lemma crc_vals:
  "crc16 [1, 0x83, 4] = 0xF340" "crc16 [1, 0x83, 2] = 0xF1C0"
  "crc16 [1, 0x90, 4] = 0xC34D" "crc16 [1, 0x90, 2] = 0xC1CD" "crc16 [1, 0x90, 3] = 0x010C"
  by (rule crc16_eval, simp add: is_byte_def, simp add: js_eval)+

text \<open>
  Claim C8, amended. For a checksum-valid read request, or a checksum-valid write request
  whose bytes between the byte count and the checksum form whole two-byte values, with
  \<open>start + quantity - 1 > 999\<close>, the response is the exception frame with code 2, whatever
  the byte count and the values, and the register bank is unchanged.
\<close>

theorem address_exception:
  assumes "read_request req \<or> write_request req" "checksum_ok req"
    "999 < start_of req + quantity_of req - 1"
  shows "handleModbusRequest tags req = Inr (tags, exception_frame req 2)"
  using assms handle_read [of req tags] handle_write [of req tags] by auto

text \<open>
  The claim as stated fails on a request with a wrong checksum: the checksum is compared
  first and the response carries code 4.
\<close>

theorem address_bad_checksum_counterexample:
  "read_request [1, 3, 0x03, 0xE8, 0, 1, 0, 0] \<and>
   999 < start_of [1, 3, 0x03, 0xE8, 0, 1, 0, 0] + quantity_of [1, 3, 0x03, 0xE8, 0, 1, 0, 0] - 1 \<and>
   handleModbusRequest defaultTags [1, 3, 0x03, 0xE8, 0, 1, 0, 0] =
     Inr (defaultTags, [1, 0x83, 4, 0x40, 0xF3])"
proof -
  have r: "read_request [1, 3, 0x03, 0xE8, 0, 1, 0, 0]"
    by (simp add: read_request_def is_byte_def)
  have c: "crc16 [1, 3, 0x03, 0xE8, 0, 1] = 0x7A04"
    by (rule crc16_eval) (simp_all add: is_byte_def js_eval)
  have "\<not> checksum_ok [1, 3, 0x03, 0xE8, 0, 1, 0, 0]"
    by (simp add: checksum_ok_def c)
  then show ?thesis
    using r handle_read [OF r, of defaultTags]
    by (simp add: exception_frame_def with_checksum_def crc_vals start_of_def quantity_of_def)
qed

theorem address_exception_witness:
  "(read_request [1, 3, 0x03, 0xE8, 0, 1, 0x04, 0x7A] \<or> write_request [1, 3, 0x03, 0xE8, 0, 1, 0x04, 0x7A]) \<and>
   checksum_ok [1, 3, 0x03, 0xE8, 0, 1, 0x04, 0x7A] \<and>
   999 < start_of [1, 3, 0x03, 0xE8, 0, 1, 0x04, 0x7A] + quantity_of [1, 3, 0x03, 0xE8, 0, 1, 0x04, 0x7A] - 1 \<and>
   handleModbusRequest defaultTags [1, 3, 0x03, 0xE8, 0, 1, 0x04, 0x7A] =
     Inr (defaultTags, [1, 0x83, 2, 0xC0, 0xF1]) \<and>
   (read_request [1, 0x10, 0x03, 0xE8, 0, 1, 2, 0, 5, 0x42, 0x7B] \<or>
    write_request [1, 0x10, 0x03, 0xE8, 0, 1, 2, 0, 5, 0x42, 0x7B]) \<and>
   checksum_ok [1, 0x10, 0x03, 0xE8, 0, 1, 2, 0, 5, 0x42, 0x7B] \<and>
   999 < start_of [1, 0x10, 0x03, 0xE8, 0, 1, 2, 0, 5, 0x42, 0x7B] +
         quantity_of [1, 0x10, 0x03, 0xE8, 0, 1, 2, 0, 5, 0x42, 0x7B] - 1 \<and>
   handleModbusRequest defaultTags [1, 0x10, 0x03, 0xE8, 0, 1, 2, 0, 5, 0x42, 0x7B] =
     Inr (defaultTags, [1, 0x90, 2, 0xCD, 0xC1])"
proof -
  have c: "crc16 [1, 3, 0x03, 0xE8, 0, 1] = 0x7A04" "crc16 [1, 0x10, 0x03, 0xE8, 0, 1, 2, 0, 5] = 0x7B42"
    by (rule crc16_eval, simp add: is_byte_def, simp add: js_eval)+
  have r: "read_request [1, 3, 0x03, 0xE8, 0, 1, 0x04, 0x7A] \<or> write_request [1, 3, 0x03, 0xE8, 0, 1, 0x04, 0x7A]"
    "checksum_ok [1, 3, 0x03, 0xE8, 0, 1, 0x04, 0x7A]"
    "999 < start_of [1, 3, 0x03, 0xE8, 0, 1, 0x04, 0x7A] + quantity_of [1, 3, 0x03, 0xE8, 0, 1, 0x04, 0x7A] - 1"
    by (simp_all add: read_request_def is_byte_def checksum_ok_def c start_of_def quantity_of_def)
  have w: "read_request [1, 0x10, 0x03, 0xE8, 0, 1, 2, 0, 5, 0x42, 0x7B] \<or>
    write_request [1, 0x10, 0x03, 0xE8, 0, 1, 2, 0, 5, 0x42, 0x7B]"
   "checksum_ok [1, 0x10, 0x03, 0xE8, 0, 1, 2, 0, 5, 0x42, 0x7B]"
   "999 < start_of [1, 0x10, 0x03, 0xE8, 0, 1, 2, 0, 5, 0x42, 0x7B] +
         quantity_of [1, 0x10, 0x03, 0xE8, 0, 1, 2, 0, 5, 0x42, 0x7B] - 1"
    by (simp_all add: write_request_def is_byte_def checksum_ok_def c start_of_def quantity_of_def)
  show ?thesis
    using r w address_exception [OF r, of defaultTags]
      address_exception [OF w, of defaultTags]
    by (simp add: exception_frame_def with_checksum_def crc_vals)
qed

text \<open>
  Claim C9, amended. For a checksum-valid write request whose bytes between the byte count
  and the checksum form whole two-byte values, with \<open>start \<le> 999\<close> and
  \<open>start + quantity - 1 \<le> 999\<close>, a byte count different from twice the quantity gives the
  exception frame with code 3, and the register bank is unchanged.
\<close>

theorem byte_count_exception:
  assumes "write_request req" "checksum_ok req"
    "start_of req \<le> 999" "start_of req + quantity_of req - 1 \<le> 999"
    "req ! 6 \<noteq> 2 * quantity_of req"
  shows "handleModbusRequest tags req = Inr (tags, exception_frame req 3)"
  using assms handle_write [of req tags] by simp

text \<open>
  The claim as stated fails where an earlier check rejects the request: with a wrong checksum
  the response carries code 4, with a range past register 999 it carries code 2.
\<close>

theorem byte_count_counterexample:
  "write_request [1, 0x10, 0, 0, 0, 1, 4, 0, 5, 0, 6, 0, 0] \<and>
   [1, 0x10, 0, 0, 0, 1, 4, 0, 5, 0, 6, 0, 0] ! 6 \<noteq> 2 * quantity_of [1, 0x10, 0, 0, 0, 1, 4, 0, 5, 0, 6, 0, 0] \<and>
   handleModbusRequest defaultTags [1, 0x10, 0, 0, 0, 1, 4, 0, 5, 0, 6, 0, 0] =
     Inr (defaultTags, [1, 0x90, 4, 0x4D, 0xC3]) \<and>
   write_request [1, 0x10, 0x03, 0xE7, 0, 2, 0, 0x7A, 0x84] \<and>
   checksum_ok [1, 0x10, 0x03, 0xE7, 0, 2, 0, 0x7A, 0x84] \<and>
   [1, 0x10, 0x03, 0xE7, 0, 2, 0, 0x7A, 0x84] ! 6 \<noteq> 2 * quantity_of [1, 0x10, 0x03, 0xE7, 0, 2, 0, 0x7A, 0x84] \<and>
   handleModbusRequest defaultTags [1, 0x10, 0x03, 0xE7, 0, 2, 0, 0x7A, 0x84] =
     Inr (defaultTags, [1, 0x90, 2, 0xCD, 0xC1])"
proof -
  have c: "crc16 [1, 0x10, 0, 0, 0, 1, 4, 0, 5, 0, 6] = 0x9F63" "crc16 [1, 0x10, 0x03, 0xE7, 0, 2, 0] = 0x847A"
    by (rule crc16_eval, simp add: is_byte_def, simp add: js_eval)+
  have a: "write_request [1, 0x10, 0, 0, 0, 1, 4, 0, 5, 0, 6, 0, 0]"
    "\<not> checksum_ok [1, 0x10, 0, 0, 0, 1, 4, 0, 5, 0, 6, 0, 0]"
    by (simp_all add: write_request_def is_byte_def checksum_ok_def c)
  have b: "write_request [1, 0x10, 0x03, 0xE7, 0, 2, 0, 0x7A, 0x84]"
    "checksum_ok [1, 0x10, 0x03, 0xE7, 0, 2, 0, 0x7A, 0x84]"
    by (simp_all add: write_request_def is_byte_def checksum_ok_def c)
  show ?thesis
    using a b handle_write [OF a(1), of defaultTags] handle_write [OF b(1), of defaultTags]
    by (simp add: exception_frame_def with_checksum_def crc_vals start_of_def quantity_of_def)
qed

theorem byte_count_exception_witness:
  "write_request [1, 0x10, 0, 0, 0, 1, 4, 0, 5, 0, 6, 0x63, 0x9F] \<and>
   checksum_ok [1, 0x10, 0, 0, 0, 1, 4, 0, 5, 0, 6, 0x63, 0x9F] \<and>
   start_of [1, 0x10, 0, 0, 0, 1, 4, 0, 5, 0, 6, 0x63, 0x9F] \<le> 999 \<and>
   start_of [1, 0x10, 0, 0, 0, 1, 4, 0, 5, 0, 6, 0x63, 0x9F] +
     quantity_of [1, 0x10, 0, 0, 0, 1, 4, 0, 5, 0, 6, 0x63, 0x9F] - 1 \<le> 999 \<and>
   [1, 0x10, 0, 0, 0, 1, 4, 0, 5, 0, 6, 0x63, 0x9F] ! 6 \<noteq>
     2 * quantity_of [1, 0x10, 0, 0, 0, 1, 4, 0, 5, 0, 6, 0x63, 0x9F] \<and>
   handleModbusRequest defaultTags [1, 0x10, 0, 0, 0, 1, 4, 0, 5, 0, 6, 0x63, 0x9F] =
     Inr (defaultTags, [1, 0x90, 3, 0x0C, 0x01])"
proof -
  have c: "crc16 [1, 0x10, 0, 0, 0, 1, 4, 0, 5, 0, 6] = 0x9F63"
    by (rule crc16_eval, simp add: is_byte_def, simp add: js_eval)+
  have h: "write_request [1, 0x10, 0, 0, 0, 1, 4, 0, 5, 0, 6, 0x63, 0x9F]"
   "checksum_ok [1, 0x10, 0, 0, 0, 1, 4, 0, 5, 0, 6, 0x63, 0x9F]"
   "start_of [1, 0x10, 0, 0, 0, 1, 4, 0, 5, 0, 6, 0x63, 0x9F] \<le> 999"
   "start_of [1, 0x10, 0, 0, 0, 1, 4, 0, 5, 0, 6, 0x63, 0x9F] +
     quantity_of [1, 0x10, 0, 0, 0, 1, 4, 0, 5, 0, 6, 0x63, 0x9F] - 1 \<le> 999"
   "[1, 0x10, 0, 0, 0, 1, 4, 0, 5, 0, 6, 0x63, 0x9F] ! 6 \<noteq>
     2 * quantity_of [1, 0x10, 0, 0, 0, 1, 4, 0, 5, 0, 6, 0x63, 0x9F]"
    by (simp_all add: write_request_def is_byte_def checksum_ok_def c start_of_def quantity_of_def)
  show ?thesis
    using h byte_count_exception [OF h, of defaultTags]
    by (simp add: exception_frame_def with_checksum_def crc_vals)
qed

section \<open>Requests the parser does not survive\<close>

lemma parse_data_last:
  "xs \<noteq> [] \<Longrightarrow> snd (last xs) = 1 \<Longrightarrow> parse_data xs = Inl TypeError"
proof (induction xs)
  case Nil
  then show ?case by simp
next
  case (Cons x xs)
  obtain v t where x: "x = (v, t)" by (cases x)
  show ?case
  proof (cases xs)
    case Nil
    with Cons.prems x show ?thesis by simp
  next
    case (Cons y ys)
    with Cons.prems Cons.IH have "parse_data xs = Inl TypeError" by simp
    moreover have "error = TypeError" for error by (cases error) simp
    ultimately show ?thesis using x Cons by (simp split: prod.splits)
  qed
qed

lemma length_tag_values: "length (tag_values k xs) = length xs"
  by (induction xs arbitrary: k) simp_all

lemma nth_tag_values:
  "i < length xs \<Longrightarrow> tag_values k xs ! i = (Num (xs ! i), (k + i) mod 2 + 1)"
proof (induction xs arbitrary: k i)
  case Nil
  then show ?case by simp
next
  case (Cons x xs)
  then show ?case by (cases i) simp_all
qed

lemma parsePDU_throws:
  assumes "4 < length PDU" "snd (PDU ! (length PDU - 3)) = 1"
  shows "parsePDU PDU = Inl TypeError"
proof -
  let ?dat = "drop 2 (take (length PDU - 2) PDU)"
  have ne: "?dat \<noteq> []" using assms(1) by simp
  have "last ?dat = ?dat ! (length ?dat - 1)" using ne by (rule last_conv_nth)
  also have "\<dots> = PDU ! (length PDU - 3)"
  proof -
    have "length ?dat - 1 = length PDU - 5" using assms(1) by simp
    moreover have "2 + (length PDU - 5) = length PDU - 3" using assms(1) by simp
    ultimately show ?thesis using assms(1) by simp
  qed
  finally have "parse_data ?dat = Inl TypeError"
    using ne assms(2) by (intro parse_data_last) simp_all
  then show ?thesis using assms(1) by (simp add: parsePDU_def Let_def)
qed

lemma write_odd_payload_throws:
  assumes "req ! 1 = 0x10" "10 \<le> length req" "even (length req)"
  shows "handleModbusRequest tags req = Inl TypeError"
proof -
  let ?fixed = "[(req_at req 0, 0 :: nat), (req_at req 1, 0), (req_at req 2, 1), (req_at req 3, 2),
        (req_at req 4, 1), (req_at req 5, 2), (req_at req 6, 0)]"
  let ?PDU = "?fixed @ tag_values 0 (drop 7 req)"
  have len: "length ?PDU = length req" using assms(2) by (simp add: length_tag_values)
  have "?PDU ! (length req - 3) = tag_values 0 (drop 7 req) ! (length req - 10)"
    using assms(2) by (simp add: nth_append length_tag_values)
  also have "snd \<dots> = (length req - 10) mod 2 + 1"
    using assms(2) by (subst nth_tag_values) simp_all
  also have "\<dots> = 1" using assms(2,3) by simp
  finally have "parsePDU ?PDU = Inl TypeError"
    using assms(2) len by (intro parsePDU_throws) simp_all
  then have "handle0x10Request tags req = Inl TypeError"
    by (simp add: handle0x10Request_def)
  moreover have "req_at req 1 = Num 16" using assms(1,2) by (simp add: req_at_def)
  ultimately show ?thesis by (simp add: handleModbusRequest_def)
qed

lemma checksum_failure_exception:
  assumes "read_request req \<or> write_request req" "\<not> checksum_ok req"
  shows "handleModbusRequest tags req = Inr (tags, exception_frame req 4)"
  using assms handle_read [of req tags] handle_write [of req tags] by auto

text \<open>
  Claim C7. On read requests and on write requests with whole two-byte values a wrong
  checksum is answered with exception code 4 (\<open>checksum_failure_exception\<close>). A write request
  with an odd number of bytes after the byte count is not answered at all: the parser throws
  before it compares the checksum. Here: byte count 1, one data byte, wrong checksum.
\<close>

theorem bad_checksum_odd_write_throws:
  "\<not> checksum_ok [1, 0x10, 0, 0, 0, 1, 1, 0xAB, 0, 0] \<and>
   handleModbusRequest defaultTags [1, 0x10, 0, 0, 0, 1, 1, 0xAB, 0, 0] = Inl TypeError"
proof -
  have c: "crc16 [1, 0x10, 0, 0, 0, 1, 1, 0xAB] = 0xE981"
    by (rule crc16_eval) (simp_all add: is_byte_def js_eval)
  have "handleModbusRequest defaultTags [1, 0x10, 0, 0, 0, 1, 1, 0xAB, 0, 0] = Inl TypeError"
    by (rule write_odd_payload_throws) simp_all
  then show ?thesis by (simp add: checksum_ok_def c)
qed

lemma unit_mismatch_silent:
  "req_at req 0 \<noteq> Num config_id \<Longrightarrow> on_data config_id tags req = Inr (tags, [])"
  by (cases "req_at req 0") (simp_all add: on_data_def)

lemma clamp_bytes: "list_all is_byte (map clamp xs)"
proof (induction xs)
  case Nil
  show ?case by simp
next
  case (Cons x xs)
  then show ?case by (cases x) (simp_all add: is_byte_def)
qed

lemma makePDU_with_checksum:
  "makePDU sid fid args = with_checksum (map clamp ([sid, fid] @ push_args args))"
proof -
  have crc: "CRC_16 (map Num (map clamp ([sid, fid] @ push_args args))) =
        Num (crc16 (map clamp ([sid, fid] @ push_args args)))"
    by (rule CRC_16_bytes) (rule clamp_bytes)
  show ?thesis
    unfolding makePDU_def Let_def crc with_checksum_def
    by (simp add: checksum_bytes clamp_byte del: clamp.simps)
qed

lemma makePDU_well_formed: "well_formed (makePDU sid fid args)"
proof -
  let ?body = "map clamp ([sid, fid] @ push_args args)"
  have "list_all is_byte (with_checksum ?body)"
    using clamp_bytes [of "[sid, fid] @ push_args args"]
    by (simp add: with_checksum_def checksum_bytes)
  moreover have "checksum_ok (with_checksum ?body)"
  proof -
    have "crc16 ?body div 256 * 256 + crc16 ?body mod 256 = crc16 ?body" by simp
    then show ?thesis by (simp add: checksum_ok_def with_checksum_def nth_append)
  qed
  ultimately show ?thesis
    unfolding makePDU_with_checksum well_formed_def by (simp add: with_checksum_def)
qed

lemma response_well_formed:
  "handleModbusRequest tags req = Inr (tags', response) \<Longrightarrow> well_formed response"
  unfolding handleModbusRequest_def handle0x03Request_def handle0x10Request_def makeError_def Let_def
  by (auto split: if_splits sum.splits option.splits simp: makePDU_well_formed)

lemma on_data_one_frame:
  "on_data config_id tags req = Inr (tags', out) \<Longrightarrow> req_at req 0 = Num config_id \<Longrightarrow>
   \<exists>response. out = [response] \<and> well_formed response"
  by (auto simp: on_data_def split: sum.splits dest: response_well_formed)

text \<open>
  Claim C4. A request for another unit id is dropped without a response
  (\<open>unit_mismatch_silent\<close>), and whenever the handler returns it has written exactly one
  well-formed frame (\<open>on_data_one_frame\<close>). It does not always return: on this complete,
  checksum-valid write request for the configured id, with byte count 1 and one data byte,
  the parser throws and nothing is written.
\<close>

theorem on_data_odd_write_throws:
  "list_all is_byte [1, 0x10, 0, 0, 0, 1, 1, 0xAB, 0x81, 0xE9] \<and>
   [1, 0x10, 0, 0, 0, 1, 1, 0xAB, 0x81, 0xE9] ! 0 = (1 :: int) \<and>
   int (length [1, 0x10, 0, 0, 0, 1, 1, 0xAB, 0x81, 0xE9 :: int]) = 7 + [1, 0x10, 0, 0, 0, 1, 1, 0xAB, 0x81, 0xE9] ! 6 + 2 \<and>
   checksum_ok [1, 0x10, 0, 0, 0, 1, 1, 0xAB, 0x81, 0xE9] \<and>
   on_data 1 defaultTags [1, 0x10, 0, 0, 0, 1, 1, 0xAB, 0x81, 0xE9] = Inl TypeError"
proof -
  have c: "crc16 [1, 0x10, 0, 0, 0, 1, 1, 0xAB] = 0xE981"
    by (rule crc16_eval) (simp_all add: is_byte_def js_eval)
  have "handleModbusRequest defaultTags [1, 0x10, 0, 0, 0, 1, 1, 0xAB, 0x81, 0xE9] = Inl TypeError"
    by (rule write_odd_payload_throws) simp_all
  then show ?thesis by (simp add: checksum_ok_def c on_data_def req_at_def is_byte_def)
qed

section \<open>Reading and writing registers\<close>

lemma nth_byte: "list_all is_byte req \<Longrightarrow> k < length req \<Longrightarrow> is_byte (req ! k)"
  by (simp add: list_all_length)

lemma word_range: "is_byte hi \<Longrightarrow> is_byte lo \<Longrightarrow> is_u16 (hi * 256 + lo)"
  unfolding is_byte_def is_u16_def by arith


lemma request_ranges:
  assumes "list_all is_byte req" "6 \<le> length req"
  shows "is_byte (req ! 0)" "is_u16 (start_of req)" "is_u16 (quantity_of req)"
proof -
  show "is_byte (req ! 0)" using assms by (intro nth_byte) auto
  have "is_byte (req ! 2)" "is_byte (req ! 3)" "is_byte (req ! 4)" "is_byte (req ! 5)"
    using assms by (simp_all add: nth_byte)
  then show "is_u16 (start_of req)" "is_u16 (quantity_of req)"
    by (simp_all add: start_of_def quantity_of_def word_range)
qed


lemma word_fields_valid: "list_all is_u16 vs \<Longrightarrow> list_all valid_field (map (\<lambda>v. (v, 2)) vs)"
  by (induction vs) (simp_all add: is_u16_def)



text \<open>A read over a hole of the bank throws and sends nothing.\<close>

lemma read_hole_throws:
  assumes "read_request req" "checksum_ok req"
    "start_of req \<le> 999" "start_of req + quantity_of req - 1 \<le> 999"
    "Hole \<in> set (js_slice tags (Num (start_of req)) (Num (start_of req + quantity_of req)))"
  shows "handleModbusRequest tags req = Inl TypeError"
  using handle_read [OF assms(1), of tags] assms(2-5) by simp

lemma push_zero_registers:
  "push_args (replicate n (Num 0, 2)) = replicate (2 * n) (Num 0)"
  by (induction n) (simp_all add: js_shr_def js_and_def)

text \<open>
  Claim C6, amended. For a checksum-valid read request with \<open>start \<le> 999\<close>,
  \<open>start + quantity - 1 \<le> 999\<close> and \<open>quantity \<le> 127\<close>, on a bank of 1000 unsigned 16-bit
  registers, the response is the frame: unit id, \<open>0x03\<close>, a byte count equal to
  \<open>quantity * 2\<close>, the \<open>quantity\<close> registers from \<open>start\<close> on in order, two bytes each, high
  byte first, and the checksum. The register bank is unchanged.
\<close>

theorem read_response:
  assumes "read_request req" "checksum_ok req"
    "start_of req \<le> 999" "start_of req + quantity_of req - 1 \<le> 999"
    "quantity_of req \<le> 127"
    "length regs = 1000" "list_all is_u16 regs"
  shows "handleModbusRequest (map Num regs) req =
           Inr (map Num regs,
                with_checksum (req ! 0 # 0x03 # 2 * quantity_of req #
                  encode_fields
                    (map (\<lambda>v. (v, 2))
                       (take (nat (quantity_of req)) (drop (nat (start_of req)) regs))))) \<and>
         length (take (nat (quantity_of req)) (drop (nat (start_of req)) regs)) =
           nat (quantity_of req)"
proof -
  let ?vs = "take (nat (quantity_of req)) (drop (nat (start_of req)) regs)"
  have b: "list_all is_byte req" "6 \<le> length req"
    using assms(1) by (simp_all add: read_request_def)
  note r = request_ranges [OF b]
  have fit: "0 \<le> start_of req" "0 \<le> quantity_of req"
    "start_of req + quantity_of req \<le> int (length (map Num regs))"
    using r assms(4,6) by (simp_all add: is_u16_def)
  have sl: "js_slice (map Num regs) (Num (start_of req)) (Num (start_of req + quantity_of req)) =
        map Num ?vs"
    using js_slice_range [OF fit] by (simp add: take_map drop_map)
  have nh: "Hole \<notin> set (js_slice (map Num regs) (Num (start_of req))
                              (Num (start_of req + quantity_of req)))"
    unfolding sl by auto
  have len: "length ?vs = nat (quantity_of req)"
    using fit by simp
  have "list_all is_u16 ?vs"
    using assms(7) by (auto simp: list_all_iff dest!: in_set_takeD in_set_dropD)
  then have valid: "list_all valid_field ((2 * quantity_of req, 1) # map (\<lambda>v. (v, 2)) ?vs)"
    using fit(2) assms(5) by (simp add: word_fields_valid)
  have mk: "makePDU (Num (req ! 0)) (Num 3)
              ((Num (quantity_of req * 2), 1) # map (\<lambda>x. (x, 2)) (map Num ?vs)) =
            with_checksum (req ! 0 # 3 # 2 * quantity_of req #
              encode_fields (map (\<lambda>v. (v, 2)) ?vs))"
    using makePDU_valid [OF r(1) _ valid, of 3]
    by (simp add: js_field_def is_byte_def mult.commute comp_def)
  have "handleModbusRequest (map Num regs) req =
        Inr (map Num regs, makePDU (Num (req ! 0)) (Num 3)
               ((Num (quantity_of req * 2), 1) #
                map (\<lambda>x. (x, 2))
                  (js_slice (map Num regs) (Num (start_of req))
                     (Num (start_of req + quantity_of req)))))"
    using handle_read [OF assms(1), of "map Num regs"] assms(2,3,4) nh by simp
  then have "handleModbusRequest (map Num regs) req =
        Inr (map Num regs, with_checksum (req ! 0 # 3 # 2 * quantity_of req #
              encode_fields (map (\<lambda>v. (v, 2)) ?vs)))"
    by (simp only: sl mk)
  with len show ?thesis by simp
qed

text \<open>
  The claim as stated fails in two places. At start 1000 with quantity 0,
  \<open>start + quantity - 1\<close> is 999, but the handler also rejects every start above 999, with
  exception code 2. At quantity 128, \<open>quantity * 2\<close> is 256 and the byte count sent is 255.
\<close>

theorem read_counterexample:
  "read_request [1, 0x03, 0x03, 0xE8, 0, 0, 0xC5, 0xBA] \<and>
   checksum_ok [1, 0x03, 0x03, 0xE8, 0, 0, 0xC5, 0xBA] \<and>
   start_of [1, 0x03, 0x03, 0xE8, 0, 0, 0xC5, 0xBA] +
     quantity_of [1, 0x03, 0x03, 0xE8, 0, 0, 0xC5, 0xBA] - 1 \<le> 999 \<and>
   handleModbusRequest defaultTags [1, 0x03, 0x03, 0xE8, 0, 0, 0xC5, 0xBA] =
     Inr (defaultTags, [1, 0x83, 2, 0xC0, 0xF1]) \<and>
   read_request [1, 0x03, 0, 0, 0, 0x80, 0x44, 0x6A] \<and>
   checksum_ok [1, 0x03, 0, 0, 0, 0x80, 0x44, 0x6A] \<and>
   start_of [1, 0x03, 0, 0, 0, 0x80, 0x44, 0x6A] +
     quantity_of [1, 0x03, 0, 0, 0, 0x80, 0x44, 0x6A] - 1 \<le> 999 \<and>
   quantity_of [1, 0x03, 0, 0, 0, 0x80, 0x44, 0x6A] * 2 = 256 \<and>
   handleModbusRequest defaultTags [1, 0x03, 0, 0, 0, 0x80, 0x44, 0x6A] =
     Inr (defaultTags, with_checksum (1 # 0x03 # 255 # replicate 256 0))"
proof -
  let ?a = "[1, 0x03, 0x03, 0xE8, 0, 0, 0xC5, 0xBA] :: int list"
  let ?b = "[1, 0x03, 0, 0, 0, 0x80, 0x44, 0x6A] :: int list"
  have c: "crc16 [1, 0x03, 0x03, 0xE8, 0, 0] = 0xBAC5" "crc16 [1, 0x03, 0, 0, 0, 0x80] = 0x6A44"
    by (rule crc16_eval, simp add: is_byte_def, simp add: js_eval)+
  have ra: "read_request ?a" "checksum_ok ?a"
    by (simp_all add: read_request_def is_byte_def checksum_ok_def c)
  have rb: "read_request ?b" "checksum_ok ?b"
    by (simp_all add: read_request_def is_byte_def checksum_ok_def c)
  have sb: "start_of ?b = 0" "quantity_of ?b = 128"
    by (simp_all add: start_of_def quantity_of_def)
  have first: "handleModbusRequest defaultTags ?a = Inr (defaultTags, [1, 0x83, 2, 0xC0, 0xF1])"
    using ra handle_read [OF ra(1), of defaultTags]
    by (simp add: exception_frame_def with_checksum_def crc_vals start_of_def quantity_of_def)
  have sl: "js_slice defaultTags (Num 0) (Num (0 + 128)) = replicate 128 (Num 0)"
    by (subst js_slice_range) (simp_all add: defaultTags_def)
  have mk: "makePDU (Num 1) (Num 3) ((Num 256, 1) # map (\<lambda>x. (x, 2)) (replicate 128 (Num 0))) =
            with_checksum (1 # 3 # 255 # replicate 256 0)"
    unfolding makePDU_with_checksum by (simp add: push_zero_registers)
  have "handleModbusRequest defaultTags ?b =
        Inr (defaultTags, makePDU (Num 1) (Num 3)
               ((Num 256, 1) # map (\<lambda>x. (x, 2)) (js_slice defaultTags (Num 0) (Num (0 + 128)))))"
    using rb handle_read [OF rb(1), of defaultTags] unfolding sb sl by simp
  then have second: "handleModbusRequest defaultTags ?b =
        Inr (defaultTags, with_checksum (1 # 3 # 255 # replicate 256 0))"
    by (simp only: sl mk)
  show ?thesis
    using ra rb first second by (simp add: start_of_def quantity_of_def)
qed

theorem read_response_witness:
  "read_request [1, 0x03, 0, 5, 0, 2, 0xD4, 0x0A] \<and>
   checksum_ok [1, 0x03, 0, 5, 0, 2, 0xD4, 0x0A] \<and>
   start_of [1, 0x03, 0, 5, 0, 2, 0xD4, 0x0A] \<le> 999 \<and>
   start_of [1, 0x03, 0, 5, 0, 2, 0xD4, 0x0A] + quantity_of [1, 0x03, 0, 5, 0, 2, 0xD4, 0x0A] - 1 \<le> 999 \<and>
   quantity_of [1, 0x03, 0, 5, 0, 2, 0xD4, 0x0A] \<le> 127 \<and>
   length (replicate 5 0 @ [7, 0x1234] @ replicate 993 (0 :: int)) = 1000 \<and>
   list_all is_u16 (replicate 5 0 @ [7, 0x1234] @ replicate 993 0) \<and>
   handleModbusRequest (map Num (replicate 5 0 @ [7, 0x1234] @ replicate 993 0))
       [1, 0x03, 0, 5, 0, 2, 0xD4, 0x0A] =
     Inr (map Num (replicate 5 0 @ [7, 0x1234] @ replicate 993 0),
          [1, 0x03, 4, 0, 7, 0x12, 0x34, 0x46, 0x85])"
proof -
  let ?req = "[1, 0x03, 0, 5, 0, 2, 0xD4, 0x0A] :: int list"
  let ?regs = "replicate 5 0 @ [7, 0x1234] @ replicate 993 (0 :: int)"
  have c: "crc16 [1, 0x03, 0, 5, 0, 2] = 0x0AD4" "crc16 [1, 0x03, 4, 0, 7, 0x12, 0x34] = 0x8546"
    by (rule crc16_eval, simp add: is_byte_def, simp add: js_eval)+
  have s: "start_of ?req = 5" "quantity_of ?req = 2"
    by (simp_all add: start_of_def quantity_of_def)
  have h: "read_request ?req" "checksum_ok ?req" "start_of ?req \<le> 999"
    "start_of ?req + quantity_of ?req - 1 \<le> 999" "quantity_of ?req \<le> 127"
    "length ?regs = 1000" "list_all is_u16 ?regs"
    by (simp_all add: read_request_def is_byte_def checksum_ok_def c s is_u16_def list_all_iff)
  show ?thesis
    using h read_response [OF h, THEN conjunct1] unfolding s
    by (simp add: with_checksum_def c)
qed

text \<open>From quantity 128 on the byte count is stored as 255.\<close>

lemma read_byte_count_saturates:
  assumes "read_request req" "checksum_ok req"
    "start_of req \<le> 999" "start_of req + quantity_of req - 1 \<le> 999"
    "127 < quantity_of req"
    "Hole \<notin> set tags"
  shows "\<exists>response. handleModbusRequest tags req = Inr (tags, response) \<and> response ! 2 = 255"
proof -
  have "clamp (Num (quantity_of req * 2)) = 255"
    using assms(5) by simp
  then have "makePDU sid fid ((Num (quantity_of req * 2), 1) # args) ! 2 = 255" for sid fid args
    unfolding makePDU_with_checksum by (simp add: with_checksum_def del: clamp.simps)
  moreover have "Hole \<notin> set (js_slice tags a b)" for a b
    using assms(6) by (auto simp: js_slice_def Let_def dest!: in_set_takeD in_set_dropD)
  ultimately show ?thesis
    using handle_read [OF assms(1), of tags] assms(2,3,4) by simp
qed

end
